theory Spec2Isabelle
  imports Main
begin

section \<open>Python values and insertion-ordered dictionaries\<close>

text \<open>
  Property values are the scalars the graph stores: \<open>None\<close>, booleans, integers and
  strings (floating-point numbers are left out of the model). \<open>py_eq\<close> is Python's
  \<open>==\<close> on them: \<open>bool\<close> is a subclass of \<open>int\<close>, so \<open>True == 1\<close> and
  \<open>False == 0\<close>; values of otherwise different types are unequal.
\<close>

datatype pyval = PNone | PBool bool | PInt int | PStr string

fun py_eq :: "pyval \<Rightarrow> pyval \<Rightarrow> bool" where
  "py_eq PNone PNone = True"
| "py_eq (PBool a) (PBool b) = (a = b)"
| "py_eq (PInt i) (PInt j) = (i = j)"
| "py_eq (PStr s) (PStr t) = (s = t)"
| "py_eq (PBool a) (PInt j) = ((if a then 1 else 0) = j)"
| "py_eq (PInt i) (PBool b) = (i = (if b then 1 else 0))"
| "py_eq _ _ = False"

text \<open>
  A Python \<open>dict\<close> keeps its items in insertion order: it is a list of key/value pairs
  with distinct keys. \<open>d[k] = v\<close> replaces the value in place when \<open>k\<close> is already a
  key and appends the pair otherwise; \<open>d.get(k)\<close> is \<open>dict_get\<close>.
\<close>

fun dict_setitem :: "('k \<times> 'v) list \<Rightarrow> 'k \<Rightarrow> 'v \<Rightarrow> ('k \<times> 'v) list" where
  "dict_setitem [] k v = [(k, v)]"
| "dict_setitem ((k', v') # kvs) k v =
     (if k' = k then (k, v) # kvs else (k', v') # dict_setitem kvs k v)"

definition dict_get :: "('k \<times> 'v) list \<Rightarrow> 'k \<Rightarrow> 'v option" where
  "dict_get d k = map_of d k"

section \<open>Objects, references and the store\<close>

text \<open>
  Nodes, edges and property dictionaries are Python objects, passed and stored by
  reference. A reference is an address; \<open>node_objs\<close>, \<open>edge_objs\<close> and \<open>dicts\<close> give
  the object at an address. A Python reference always points to a live object, so the
  three heaps are total; \<open>next_node\<close> and \<open>next_edge\<close> are the addresses the next
  \<open>Node(...)\<close> and \<open>Edge(...)\<close> constructor calls get.

  \<open>outgoing\<close> and \<open>incoming\<close> are dictionaries made by the dataclass's
  \<open>default_factory\<close>, one pair per node and never reassigned, so they are kept inside
  the node object; they map an edge uid to a reference to the edge. \<open>properties\<close> is
  whatever dictionary the caller handed over and is kept as a reference.
\<close>

type_synonym uid = string
type_synonym ref = nat

record Node =
  node_uid :: uid
  node_properties :: ref
  outgoing :: "(uid \<times> ref) list"
  incoming :: "(uid \<times> ref) list"

record Edge =
  edge_uid :: uid
  label :: string
  tail :: ref
  head :: ref
  edge_properties :: ref

text \<open>
  \<open>nodes\<close> and \<open>edges\<close> are the two attributes of the \<open>Graph\<close> instance
  (uid to object reference, in insertion order); the other fields are the heap.
\<close>

record world =
  dicts :: "ref \<Rightarrow> (string \<times> pyval) list"
  node_objs :: "ref \<Rightarrow> Node"
  edge_objs :: "ref \<Rightarrow> Edge"
  next_node :: ref
  next_edge :: ref
  nodes :: "(uid \<times> ref) list"
  edges :: "(uid \<times> ref) list"

datatype py_error = KeyError

text \<open>
  The default value \<open>{}\<close> of \<open>add_edge\<close>'s parameter \<open>properties\<close> is evaluated once,
  when the function is defined: it is one dictionary object, at a fixed address.
\<close>

definition add_edge_default_properties :: ref where
  "add_edge_default_properties = 0"

section \<open>The store's operations\<close>

text \<open>
  Every method takes the world and returns its result with the world it leaves.
  \<open>new_Node\<close> and \<open>new_Edge\<close> are the dataclass constructors. \<open>kw_uid\<close> is
  the keyword argument \<open>uid\<close> (\<open>None\<close> when it is not passed) and \<open>gen\<close> the
  string \<open>shortuuid.uuid()\<close> returned in this call; the generator is called whether
  or not \<open>uid\<close> is passed.
\<close>

definition new_Node :: "world \<Rightarrow> uid \<Rightarrow> ref \<Rightarrow> ref \<times> world" where
  "new_Node w uid properties =
     (let n = next_node w
      in (n, w\<lparr>node_objs := (node_objs w)(n := \<lparr>node_uid = uid, node_properties = properties,
                                                 outgoing = [], incoming = []\<rparr>),
                next_node := Suc n\<rparr>))"

definition new_Edge :: "world \<Rightarrow> uid \<Rightarrow> string \<Rightarrow> ref \<Rightarrow> ref \<Rightarrow> ref \<Rightarrow> ref \<times> world" where
  "new_Edge w uid lbl tail_ref head_ref properties =
     (let e = next_edge w
      in (e, w\<lparr>edge_objs := (edge_objs w)(e := \<lparr>edge_uid = uid, label = lbl,
                   tail = tail_ref, head = head_ref, edge_properties = properties\<rparr>),
                next_edge := Suc e\<rparr>))"

definition add_node :: "world \<Rightarrow> ref \<Rightarrow> uid option \<Rightarrow> uid \<Rightarrow> ref \<times> world" where
  "add_node w properties kw_uid gen =
     (let uid = (case kw_uid of Some u \<Rightarrow> u | None \<Rightarrow> gen);
          (n, w1) = new_Node w uid properties;
          w2 = w1\<lparr>nodes := dict_setitem (nodes w1) uid n\<rparr>
      in (n, w2))"

definition node :: "world \<Rightarrow> uid \<Rightarrow> ref option \<times> world" where
  "node w uid = (dict_get (nodes w) uid, w)"

definition edge :: "world \<Rightarrow> uid \<Rightarrow> ref option \<times> world" where
  "edge w uid = (dict_get (edges w) uid, w)"

text \<open>
  \<open>add_edge\<close>: the result is \<open>Inl KeyError\<close> when \<open>self.nodes[...]\<close> raises,
  \<open>Inr None\<close> for \<open>return None\<close> and \<open>Inr (Some e)\<close> for the edge. The world is
  returned in every case: when the call raises, the writes made before stay.
  \<open>self.edges[uid]\<close> is read right after it is written, so it is the new edge \<open>e\<close>;
  likewise \<open>add_node\<close> returns the node it has just stored.
\<close>

definition add_edge ::
  "world \<Rightarrow> ref \<Rightarrow> string \<Rightarrow> ref \<Rightarrow> ref option \<Rightarrow> uid option \<Rightarrow> uid
     \<Rightarrow> (py_error + ref option) \<times> world" where
  "add_edge w tail_ref lbl head_ref properties kw_uid gen =
     (let uid = (case kw_uid of Some u \<Rightarrow> u | None \<Rightarrow> gen);
          props = (case properties of Some p \<Rightarrow> p | None \<Rightarrow> add_edge_default_properties)
      in if fst (node w (node_uid (node_objs w tail_ref))) = None
            \<and> fst (node w (node_uid (node_objs w head_ref))) = None
         then (Inr None, w)
         else
           let tail_uid = node_uid (node_objs w tail_ref);
               head_uid = node_uid (node_objs w head_ref);
               (e, w0) = new_Edge w uid lbl tail_ref head_ref props;
               w1 = w0\<lparr>edges := dict_setitem (edges w0) uid e\<rparr>
           in case dict_get (nodes w1) tail_uid of
                None \<Rightarrow> (Inl KeyError, w1)
              | Some tn \<Rightarrow>
                  let w2 = w1\<lparr>node_objs := (node_objs w1)(tn := (node_objs w1 tn)
                             \<lparr>outgoing := dict_setitem (outgoing (node_objs w1 tn))
                                            (edge_uid (edge_objs w1 e)) e\<rparr>)\<rparr>
                  in (case dict_get (nodes w2) head_uid of
                        None \<Rightarrow> (Inl KeyError, w2)
                      | Some hn \<Rightarrow>
                          let w3 = w2\<lparr>node_objs := (node_objs w2)(hn := (node_objs w2 hn)
                                     \<lparr>incoming := dict_setitem (incoming (node_objs w2 hn))
                                                    (edge_uid (edge_objs w2 e)) e\<rparr>)\<rparr>
                          in (Inr (dict_get (edges w3) uid), w3)))"

section \<open>Property matching\<close>

text \<open>
  \<open>_match_dict\<close>: the loop over \<open>d2.items()\<close> with the counter \<open>matches\<close>;
  \<open>d1.get(key)\<close> is \<open>None\<close> when \<open>key\<close> is not in \<open>d1\<close>.
\<close>

definition get_or_None :: "(string \<times> pyval) list \<Rightarrow> string \<Rightarrow> pyval" where
  "get_or_None d k = (case dict_get d k of None \<Rightarrow> PNone | Some v \<Rightarrow> v)"

fun match_loop :: "(string \<times> pyval) list \<Rightarrow> (string \<times> pyval) list \<Rightarrow> nat \<Rightarrow> nat" where
  "match_loop d1 [] matches = matches"
| "match_loop d1 ((key, val) # items) matches =
     match_loop d1 items (if py_eq (get_or_None d1 key) val then matches + 1 else matches)"

definition match_dict :: "world \<Rightarrow> ref \<Rightarrow> ref \<Rightarrow> nat \<times> world" where
  "match_dict w d1 d2 = (match_loop (dicts w d1) (dicts w d2) 0, w)"

fun find_node_loop :: "world \<Rightarrow> (uid \<times> ref) list \<Rightarrow> ref \<Rightarrow> ref list \<Rightarrow> ref list \<times> world" where
  "find_node_loop w [] properties nodes_matching = (nodes_matching, w)"
| "find_node_loop w ((_, n) # items) properties nodes_matching =
     (let (matches, w1) = match_dict w (node_properties (node_objs w n)) properties
      in find_node_loop w1 items properties
           (if matches \<noteq> 0 then nodes_matching @ [n] else nodes_matching))"

definition find_node :: "world \<Rightarrow> ref \<Rightarrow> ref list \<times> world" where
  "find_node w properties = find_node_loop w (nodes w) properties []"

section \<open>Traversal\<close>

fun edges_label_loop :: "world \<Rightarrow> (uid \<times> ref) list \<Rightarrow> string \<Rightarrow> ref list \<Rightarrow> ref list" where
  "edges_label_loop w [] lbl edge_matches = edge_matches"
| "edges_label_loop w ((_, e) # items) lbl edge_matches =
     edges_label_loop w items lbl
       (if label (edge_objs w e) = lbl then edge_matches @ [e] else edge_matches)"

definition find_node_edges_label_outgoing :: "world \<Rightarrow> ref \<Rightarrow> string \<Rightarrow> ref list \<times> world" where
  "find_node_edges_label_outgoing w n lbl =
     (edges_label_loop w (outgoing (node_objs w n)) lbl [], w)"

definition find_node_edges_label_incoming :: "world \<Rightarrow> ref \<Rightarrow> string \<Rightarrow> ref list \<times> world" where
  "find_node_edges_label_incoming w n lbl =
     (edges_label_loop w (incoming (node_objs w n)) lbl [], w)"

text \<open>
  The \<open>while\<close> loop of \<open>follow_edge_on_label\<close> may run forever, so it is a partial
  function: \<open>None\<close> is "does not return". Its arguments are the loop's variables.
\<close>

partial_function (option) follow_while ::
  "world \<Rightarrow> string \<Rightarrow> ref \<Rightarrow> ref list \<Rightarrow> (ref \<times> world) option" where
  "follow_while w lbl curr_head curr_head_edges_with_label =
     (if length curr_head_edges_with_label > 0
      then (let e = curr_head_edges_with_label ! 0;
                curr_head1 = head (edge_objs w e);
                r = find_node_edges_label_outgoing w curr_head1 lbl
            in follow_while (snd r) lbl curr_head1 (fst r))
      else Some (curr_head, w))"

text \<open>
  The result \<open>Some (None, w)\<close> is \<open>return None\<close>, \<open>Some (Some n, w)\<close> the node \<open>n\<close>.
\<close>

definition follow_edge_on_label :: "world \<Rightarrow> ref \<Rightarrow> string \<Rightarrow> (ref option \<times> world) option" where
  "follow_edge_on_label w e lbl =
     (let curr_head = head (edge_objs w e);
          (es, w1) = find_node_edges_label_outgoing w curr_head lbl
      in if length es = 0 then Some (None, w1)
         else map_option (\<lambda>(n, w2). (Some n, w2)) (follow_while w1 lbl curr_head es))"

section \<open>Runs of the create operations\<close>

text \<open>
  \<open>fresh_graph\<close>: a new \<open>Graph()\<close>, both mappings empty, before any \<open>Node\<close> or
  \<open>Edge\<close> object has been made. \<open>empty_world\<close> is such a world, with every property
  dictionary empty; the concrete graphs are built from it. A \<open>call\<close> is one create
  operation with its arguments.
\<close>

definition fresh_graph :: "world \<Rightarrow> bool" where
  "fresh_graph w \<longleftrightarrow> nodes w = [] \<and> edges w = [] \<and> next_node w = 0 \<and> next_edge w = 0"

definition empty_world :: world where
  "empty_world =
     \<lparr>dicts = (\<lambda>_. []),
      node_objs = (\<lambda>_. \<lparr>node_uid = [], node_properties = 0, outgoing = [], incoming = []\<rparr>),
      edge_objs = (\<lambda>_. \<lparr>edge_uid = [], label = [], tail = 0, head = 0, edge_properties = 0\<rparr>),
      next_node = 0, next_edge = 0, nodes = [], edges = []\<rparr>"

datatype call =
    Add_node ref "uid option" uid
  | Add_edge ref string ref "ref option" "uid option" uid

fun exec_call :: "world \<Rightarrow> call \<Rightarrow> world" where
  "exec_call w (Add_node p kw_uid gen) = snd (add_node w p kw_uid gen)"
| "exec_call w (Add_edge t lbl h p kw_uid gen) = snd (add_edge w t lbl h p kw_uid gen)"

fun exec_calls :: "world \<Rightarrow> call list \<Rightarrow> world" where
  "exec_calls w [] = w"
| "exec_calls w (c # cs) = exec_calls (exec_call w c) cs"

section \<open>The specification's reading of the matcher\<close>

text \<open>
  Written from the specification, for comparison with \<open>match_dict\<close> and
  \<open>find_node\<close>: a query pair counts when the candidate has that key mapped to that
  value.
\<close>

definition spec_match_count :: "(string \<times> pyval) list \<Rightarrow> (string \<times> pyval) list \<Rightarrow> nat" where
  "spec_match_count candidate query =
     length (filter (\<lambda>(k, v). dict_get candidate k = Some v) query)"

definition spec_find_node :: "world \<Rightarrow> ref \<Rightarrow> ref list" where
  "spec_find_node w q =
     filter (\<lambda>n. 0 < spec_match_count (dicts w (node_properties (node_objs w n))) (dicts w q))
       (map snd (nodes w))"

section \<open>The walk, described without the loop\<close>

text \<open>
  \<open>first_labelled w n lbl\<close> is the first edge, in insertion order, of \<open>n\<close>'s outgoing
  map that carries the label. \<open>walk_to w lbl n m\<close>: stepping along first labelled edges
  from \<open>n\<close> reaches \<open>m\<close>, the first node without a labelled outgoing edge.
  \<open>label_succ\<close> is the whole label-restricted graph: every labelled edge, not only the
  first of each node.
\<close>

definition first_labelled :: "world \<Rightarrow> ref \<Rightarrow> string \<Rightarrow> ref option" where
  "first_labelled w n lbl =
     map_option snd (find (\<lambda>(u, e). label (edge_objs w e) = lbl) (outgoing (node_objs w n)))"

inductive walk_to :: "world \<Rightarrow> string \<Rightarrow> ref \<Rightarrow> ref \<Rightarrow> bool" for w lbl where
  stop: "first_labelled w n lbl = None \<Longrightarrow> walk_to w lbl n n"
| step: "first_labelled w n lbl = Some e \<Longrightarrow> walk_to w lbl (head (edge_objs w e)) m
          \<Longrightarrow> walk_to w lbl n m"

definition label_succ :: "world \<Rightarrow> string \<Rightarrow> (ref \<times> ref) set" where
  "label_succ w lbl =
     {(n, m). \<exists>(u, e) \<in> set (outgoing (node_objs w n)).
                 label (edge_objs w e) = lbl \<and> head (edge_objs w e) = m}"

section \<open>Properties of runs\<close>

text \<open>
  \<open>add_node_uids w cs\<close> lists the uid of the node each \<open>add_node\<close> call of the run
  returns. \<open>stored w n\<close>: the node object \<open>n\<close> is the one the node mapping holds under
  its uid (\<open>graph.node(n.uid) is n\<close>). \<open>endpoints_stored w cs\<close>: every \<open>add_edge\<close>
  call of the run is made with two stored nodes.
\<close>

fun add_node_uids :: "world \<Rightarrow> call list \<Rightarrow> uid list" where
  "add_node_uids w [] = []"
| "add_node_uids w (Add_node p kw_uid gen # cs) =
     (let (n, w1) = add_node w p kw_uid gen
      in node_uid (node_objs w1 n) # add_node_uids w1 cs)"
| "add_node_uids w (c # cs) = add_node_uids (exec_call w c) cs"



definition stored :: "world \<Rightarrow> ref \<Rightarrow> bool" where
  "stored w n \<longleftrightarrow> fst (node w (node_uid (node_objs w n))) = Some n"

fun endpoints_stored :: "world \<Rightarrow> call list \<Rightarrow> bool" where
  "endpoints_stored w [] = True"
| "endpoints_stored w (Add_edge t lbl h p kw_uid gen # cs) =
     (stored w t \<and> stored w h \<and> endpoints_stored (exec_call w (Add_edge t lbl h p kw_uid gen)) cs)"
| "endpoints_stored w (c # cs) = endpoints_stored (exec_call w c) cs"

text \<open>
  \<open>edge_linked_once w e\<close>: among the node objects, exactly the tail of \<open>e\<close> has \<open>e\<close> in
  its outgoing map, there once and under the uid of \<open>e\<close>; likewise the head and the
  incoming maps.
\<close>

definition edge_linked_once :: "world \<Rightarrow> ref \<Rightarrow> bool" where
  "edge_linked_once w e \<longleftrightarrow>
     filter (\<lambda>n. e \<in> snd ` set (outgoing (node_objs w n))) [0..<next_node w]
       = [tail (edge_objs w e)]
   \<and> filter (\<lambda>kv. snd kv = e) (outgoing (node_objs w (tail (edge_objs w e))))
       = [(edge_uid (edge_objs w e), e)]
   \<and> filter (\<lambda>n. e \<in> snd ` set (incoming (node_objs w n))) [0..<next_node w]
       = [head (edge_objs w e)]
   \<and> filter (\<lambda>kv. snd kv = e) (incoming (node_objs w (head (edge_objs w e))))
       = [(edge_uid (edge_objs w e), e)]"

text \<open>The invariant that runs with stored endpoints keep.\<close>

definition adj_ok :: "world \<Rightarrow> (Node \<Rightarrow> (uid \<times> ref) list) \<Rightarrow> (Edge \<Rightarrow> ref) \<Rightarrow> bool" where
  "adj_ok w adj end_of \<longleftrightarrow>
     (\<forall>n < next_node w. distinct (map fst (adj (node_objs w n))) \<and>
        (\<forall>(u, e) \<in> set (adj (node_objs w n)).
            e < next_edge w \<and> end_of (edge_objs w e) = n \<and> edge_uid (edge_objs w e) = u))"

definition graph_inv :: "world \<Rightarrow> bool" where
  "graph_inv w \<longleftrightarrow>
     (\<forall>(u, n) \<in> set (nodes w). n < next_node w)
   \<and> distinct (map fst (edges w))
   \<and> (\<forall>(u, e) \<in> set (edges w).
         e < next_edge w \<and> edge_uid (edge_objs w e) = u
       \<and> tail (edge_objs w e) < next_node w \<and> head (edge_objs w e) < next_node w
       \<and> (u, e) \<in> set (outgoing (node_objs w (tail (edge_objs w e))))
       \<and> (u, e) \<in> set (incoming (node_objs w (head (edge_objs w e)))))
   \<and> adj_ok w outgoing tail \<and> adj_ok w incoming head"

text \<open>A caller's \<open>d[k] = v\<close> on a property dictionary it holds a reference to.\<close>

definition setitem_properties :: "world \<Rightarrow> ref \<Rightarrow> string \<Rightarrow> pyval \<Rightarrow> world" where
  "setitem_properties w d k v = w\<lparr>dicts := (dicts w)(d := dict_setitem (dicts w d) k v)\<rparr>"

section \<open>Concrete graphs\<close>

text \<open>
  \<open>w_none\<close>: one node with the empty property dictionary 1; dictionary 2 is
  \<open>{'a': None}\<close>. \<open>w_one\<close>: node 0 (uid a) added to the graph, node 1 (uid b) built
  with the constructor and not added. \<open>w_two\<close>: nodes a and b, both added.
  \<open>w_chain\<close>: A --WITHIN--> B --WITHIN--> C. \<open>w_cycle\<close>: X --L--> Y --L--> X.
  \<open>w_escape\<close>: the same cycle, where Y first got an edge labelled L to Z.
  \<open>stale_calls\<close>: a second node takes the uid of the first, then the first is linked
  to itself.
\<close>

definition w_none :: world where
  "w_none = (snd (add_node empty_world 1 None ''n''))\<lparr>dicts := (\<lambda>_. [])(2 := [(''a'', PNone)])\<rparr>"

definition w_one :: world where
  "w_one = snd (new_Node (snd (add_node empty_world 1 None ''a'')) ''b'' 2)"

definition w_two :: world where
  "w_two = exec_calls empty_world [Add_node 1 None ''a'', Add_node 2 None ''b'']"

definition chain_calls :: "call list" where
  "chain_calls =
     [Add_node 1 None ''A'', Add_node 2 None ''B'', Add_node 3 None ''C'',
      Add_edge 0 ''WITHIN'' 1 None None ''e1'', Add_edge 1 ''WITHIN'' 2 None None ''e2'']"

definition w_chain :: world where
  "w_chain = exec_calls empty_world chain_calls"

definition w_cycle :: world where
  "w_cycle = exec_calls empty_world
     [Add_node 1 None ''X'', Add_node 2 None ''Y'',
      Add_edge 0 ''L'' 1 None None ''xy'', Add_edge 1 ''L'' 0 None None ''yx'']"

definition w_escape :: world where
  "w_escape = exec_calls empty_world
     [Add_node 1 None ''X'', Add_node 2 None ''Y'', Add_node 3 None ''Z'',
      Add_edge 1 ''L'' 2 None None ''yz'',
      Add_edge 0 ''L'' 1 None None ''xy'', Add_edge 1 ''L'' 0 None None ''yx'']"

definition stale_calls :: "call list" where
  "stale_calls =
     [Add_node 1 (Some ''n'') ''g1'', Add_node 1 (Some ''n'') ''g2'',
      Add_edge 0 ''L'' 0 None None ''e'']"

section \<open>Dictionaries\<close>

lemma dict_get_setitem:
  "dict_get (dict_setitem d k v) k' = (if k' = k then Some v else dict_get d k')"
  by (induction d) (auto simp: dict_get_def)

lemma map_fst_dict_setitem:
  "map fst (dict_setitem d k v) = (if k \<in> fst ` set d then map fst d else map fst d @ [k])"
proof (induction d)
  case Nil
  show ?case by simp
next
  case (Cons a d)
  obtain k' v' where a: "a = (k', v')" by (cases a)
  show ?case
  proof (cases "k' = k")
    case True
    then show ?thesis by (simp add: a)
  next
    case False
    then show ?thesis using Cons.IH by (auto simp: a)
  qed
qed

lemma distinct_dict_setitem:
  "distinct (map fst d) \<Longrightarrow> distinct (map fst (dict_setitem d k v))"
  by (simp add: map_fst_dict_setitem)

lemma set_dict_setitem:
  "distinct (map fst d) \<Longrightarrow>
   set (dict_setitem d k v) = insert (k, v) {kv \<in> set d. fst kv \<noteq> k}"
proof (induction d)
  case Nil
  show ?case by simp
next
  case (Cons a d)
  obtain k' v' where a: "a = (k', v')" by (cases a)
  show ?case
  proof (cases "k' = k")
    case True
    then have "\<forall>kv \<in> set d. fst kv \<noteq> k" using Cons.prems by (auto simp: a)
    then show ?thesis using True by (auto simp: a)
  next
    case False
    then show ?thesis using Cons by (auto simp: a)
  qed
qed

lemma keys_dict_setitem: "fst ` set (dict_setitem d k v) = insert k (fst ` set d)"
proof -
  have "set (map fst (dict_setitem d k v)) = insert k (set (map fst d))"
    unfolding map_fst_dict_setitem by (cases "k \<in> fst ` set d") auto
  then show ?thesis by simp
qed

lemma set_dict_setitem_subset: "set (dict_setitem d k v) \<subseteq> insert (k, v) (set d)"
  by (induction d) (auto split: if_splits)

lemma in_set_dict_setitem: "(k, v) \<in> set (dict_setitem d k v)"
  by (induction d) auto

lemma filter_singleton:
  "distinct xs \<Longrightarrow> x \<in> set xs \<Longrightarrow> (\<And>y. y \<in> set xs \<Longrightarrow> P y \<longleftrightarrow> y = x) \<Longrightarrow> filter P xs = [x]"
proof (induction xs)
  case Nil
  then show ?case by simp
next
  case (Cons a xs)
  show ?case
  proof (cases "a = x")
    case True
    with Cons.prems have "\<forall>y \<in> set xs. \<not> P y" by auto
    then have "filter P xs = []" by (simp add: filter_empty_conv)
    moreover have "P a" using Cons.prems(3)[of a] True by simp
    ultimately show ?thesis using True by simp
  next
    case False
    with Cons.prems have "x \<in> set xs" by simp
    moreover have "distinct xs" using Cons.prems by simp
    ultimately have "filter P xs = [x]" using Cons.prems(3) by (intro Cons.IH) auto
    moreover have "\<not> P a" using Cons.prems(3)[of a] False by simp
    ultimately show ?thesis by simp
  qed
qed

section \<open>The loops as list functions\<close>

lemmas op_defs = add_node_def add_edge_def new_Node_def new_Edge_def node_def edge_def
  match_dict_def find_node_def find_node_edges_label_outgoing_def
  find_node_edges_label_incoming_def empty_world_def dict_get_def
  add_edge_default_properties_def

lemma match_loop_eq:
  "match_loop d1 d2 m = m + length (filter (\<lambda>(k, v). py_eq (get_or_None d1 k) v) d2)"
  by (induction d2 arbitrary: m) auto

lemma find_node_loop_eq:
  "find_node_loop w items q acc =
     (acc @ map snd (filter (\<lambda>(u, n). 0 < fst (match_dict w (node_properties (node_objs w n)) q)) items), w)"
  by (induction items arbitrary: acc) (auto simp: match_dict_def)

lemma find_node_filter: "fst (find_node w q) =
   map snd (filter (\<lambda>(u, n). 0 < fst (match_dict w (node_properties (node_objs w n)) q)) (nodes w))"
  by (simp add: find_node_def find_node_loop_eq)

lemma find_node_empty_query: "dicts w q = [] \<Longrightarrow> fst (find_node w q) = []"
  by (simp add: find_node_filter match_dict_def)

lemma edges_label_loop_eq:
  "edges_label_loop w items l acc = acc @ map snd (filter (\<lambda>(u, e). label (edge_objs w e) = l) items)"
  by (induction items arbitrary: acc) auto

lemma find_out_fst: "fst (find_node_edges_label_outgoing w n l) =
    map snd (filter (\<lambda>(u, e). label (edge_objs w e) = l) (outgoing (node_objs w n)))"
  by (simp add: find_node_edges_label_outgoing_def edges_label_loop_eq)

lemma find_out_snd: "snd (find_node_edges_label_outgoing w n l) = w"
  by (simp add: find_node_edges_label_outgoing_def)

lemma find_filter_case:
  "map_option f (find P xs) = (case filter P xs of [] \<Rightarrow> None | x # _ \<Rightarrow> Some (f x))"
  by (induction xs) auto

lemma first_labelled_None:
  "first_labelled w n l = None \<longleftrightarrow> fst (find_node_edges_label_outgoing w n l) = []"
  by (simp add: first_labelled_def find_out_fst find_filter_case split: list.splits)

lemma first_labelled_Some:
  "first_labelled w n l = Some e \<longleftrightarrow>
     fst (find_node_edges_label_outgoing w n l) \<noteq> [] \<and> fst (find_node_edges_label_outgoing w n l) ! 0 = e"
  by (auto simp: first_labelled_def find_out_fst find_filter_case split: list.splits)

lemma follow_while_unfold:
  "follow_while w l n (fst (find_node_edges_label_outgoing w n l)) =
     (case first_labelled w n l of
        None \<Rightarrow> Some (n, w)
      | Some e \<Rightarrow> follow_while w l (head (edge_objs w e))
                   (fst (find_node_edges_label_outgoing w (head (edge_objs w e)) l)))"
proof (cases "first_labelled w n l")
  case None
  then have "fst (find_node_edges_label_outgoing w n l) = []"
    by (simp add: first_labelled_None)
  then show ?thesis
    by (subst follow_while.simps) (simp add: None)
next
  case (Some e)
  then have "fst (find_node_edges_label_outgoing w n l) \<noteq> []"
    and "fst (find_node_edges_label_outgoing w n l) ! 0 = e"
    by (simp_all add: first_labelled_Some)
  then show ?thesis
    by (subst follow_while.simps) (simp add: Some find_out_snd Let_def)
qed

lemma walk_follow:
  "walk_to w l n m \<Longrightarrow>
   follow_while w l n (fst (find_node_edges_label_outgoing w n l)) = Some (m, w)"
  by (induction rule: walk_to.induct) (simp_all add: follow_while_unfold)

lemma follow_walk_aux:
  "follow_while w l n es = Some r \<Longrightarrow> es = fst (find_node_edges_label_outgoing w n l)
     \<Longrightarrow> snd r = w \<and> walk_to w l n (fst r)"
proof (induction arbitrary: rule: follow_while.raw_induct[rotated 1, consumes 1])
  case (1 fw w l n es r)
  show ?case
  proof (cases "first_labelled w n l")
    case None
    then have "es = []" using 1(3) by (simp add: first_labelled_None)
    with 1(2) have "r = (n, w)" by simp
    then show ?thesis using None by (simp add: walk_to.stop)
  next
    case (Some e)
    then have ne: "es \<noteq> []" and e: "es ! 0 = e" using 1(3) by (simp_all add: first_labelled_Some)
    from 1(2) ne e
    have "fw w l (head (edge_objs w e)) (fst (find_node_edges_label_outgoing w (head (edge_objs w e)) l)) = Some r"
      by (simp add: Let_def find_out_snd)
    from 1(1)[OF this refl] show ?thesis using Some by (auto intro: walk_to.step)
  qed
qed

lemma follow_while_iff:
  "follow_while w l n (fst (find_node_edges_label_outgoing w n l)) = Some (m, w1)
     \<longleftrightarrow> w1 = w \<and> walk_to w l n m"
  using follow_walk_aux[of w l n "fst (find_node_edges_label_outgoing w n l)" "(m, w1)"]
        walk_follow[of w l n m]
  by auto

lemma follow_edge_on_label_eq:
  "follow_edge_on_label w e l =
     (if first_labelled w (head (edge_objs w e)) l = None then Some (None, w)
      else map_option (\<lambda>(n, w2). (Some n, w2))
             (follow_while w l (head (edge_objs w e))
                (fst (find_node_edges_label_outgoing w (head (edge_objs w e)) l))))"
  by (simp add: follow_edge_on_label_def Let_def split_def find_out_snd first_labelled_None)

lemma follow_while_cycle:
  assumes xy: "first_labelled w x l = Some e1" "head (edge_objs w e1) = y"
      and yx: "first_labelled w y l = Some e2" "head (edge_objs w e2) = x"
  shows "follow_while w1 l1 n es = Some r \<Longrightarrow> w1 = w \<Longrightarrow> l1 = l \<Longrightarrow> n = x \<or> n = y
     \<Longrightarrow> es = fst (find_node_edges_label_outgoing w n l) \<Longrightarrow> False"
proof (induction rule: follow_while.raw_induct[rotated 1, consumes 1])
  case (1 fw w1 l1 n es r)
  from 1(5) show ?case
  proof
    assume n: "n = x"
    then have ne: "es \<noteq> []" and e: "es ! 0 = e1"
      using 1(6) xy(1) by (simp_all add: first_labelled_Some)
    from 1(2) ne e have "fw w l y (fst (find_node_edges_label_outgoing w y l)) = Some r"
      by (simp add: Let_def find_out_snd 1(3,4) xy(2))
    from 1(1)[OF this] show False by simp
  next
    assume n: "n = y"
    then have ne: "es \<noteq> []" and e: "es ! 0 = e2"
      using 1(6) yx(1) by (simp_all add: first_labelled_Some)
    from 1(2) ne e have "fw w l x (fst (find_node_edges_label_outgoing w x l)) = Some r"
      by (simp add: Let_def find_out_snd 1(3,4) yx(2))
    from 1(1)[OF this] show False by simp
  qed
qed

lemma follow_cycle_diverges:
  assumes "first_labelled w x l = Some e1" "head (edge_objs w e1) = y"
      and "first_labelled w y l = Some e2" "head (edge_objs w e2) = x"
      and "head (edge_objs w e) = y"
  shows "follow_edge_on_label w e l = None"
proof -
  have "follow_while w l y (fst (find_node_edges_label_outgoing w y l)) = None"
  proof (cases "follow_while w l y (fst (find_node_edges_label_outgoing w y l))")
    case None then show ?thesis .
  next
    case (Some r)
    from follow_while_cycle[OF assms(1-4) Some] show ?thesis by simp
  qed
  then show ?thesis
    by (simp add: follow_edge_on_label_eq assms)
qed

lemma first_labelled_succ:
  assumes "first_labelled w n l = Some e"
  shows "(n, head (edge_objs w e)) \<in> label_succ w l"
proof -
  from assms obtain u where f: "find (\<lambda>(u, e). label (edge_objs w e) = l) (outgoing (node_objs w n)) = Some (u, e)"
    by (auto simp: first_labelled_def)
  then have "(u, e) \<in> set (outgoing (node_objs w n))" and "label (edge_objs w e) = l"
    by (auto simp: find_Some_iff in_set_conv_nth)
  then show ?thesis by (auto simp: label_succ_def)
qed

lemma follow_while_terminates:
  assumes fin: "finite ((label_succ w l)\<^sup>* `` {h})"
      and acyc: "\<forall>n \<in> (label_succ w l)\<^sup>* `` {h}. (n, n) \<notin> (label_succ w l)\<^sup>+"
  shows "n \<in> (label_succ w l)\<^sup>* `` {h} \<Longrightarrow>
         \<exists>m. follow_while w l n (fst (find_node_edges_label_outgoing w n l)) = Some (m, w)"
proof -
  let ?R = "label_succ w l"
  let ?S = "?R\<^sup>* `` {h}"
  let ?R' = "?R \<inter> ?S \<times> ?S"
  have finR: "finite ?R'" using fin by simp
  have "acyclic ?R'"
  proof (rule acyclicI, rule allI, rule notI)
    fix x assume x: "(x, x) \<in> ?R'\<^sup>+"
    then have "(x, x) \<in> ?R\<^sup>+" by (rule trancl_mono) simp
    moreover from x have "x \<in> ?S" by (induction rule: trancl.induct) auto
    ultimately show False using acyc by blast
  qed
  with finR have wf: "wf (?R'\<inverse>)" by (rule finite_acyclic_wf_converse)
  show "n \<in> ?S \<Longrightarrow> \<exists>m. follow_while w l n (fst (find_node_edges_label_outgoing w n l)) = Some (m, w)"
    using wf
  proof (induction n rule: wf_induct_rule)
    case (less n)
    show ?case
    proof (cases "first_labelled w n l")
      case None
      then show ?thesis by (simp add: follow_while_unfold)
    next
      case (Some e)
      let ?m = "head (edge_objs w e)"
      have nm: "(n, ?m) \<in> ?R" using Some by (rule first_labelled_succ)
      with less.prems have mS: "?m \<in> ?S" by (auto intro: rtrancl_into_rtrancl)
      with nm less.prems have "(?m, n) \<in> ?R'\<inverse>" by simp
      from less.IH[OF this mS] show ?thesis by (simp add: follow_while_unfold Some)
    qed
  qed
qed

lemma follow_acyclic_terminates:
  assumes "finite ((label_succ w l)\<^sup>* `` {head (edge_objs w e)})"
      and "\<forall>n \<in> (label_succ w l)\<^sup>* `` {head (edge_objs w e)}. (n, n) \<notin> (label_succ w l)\<^sup>+"
  shows "\<exists>r. follow_edge_on_label w e l = Some (r, w)"
proof -
  have "head (edge_objs w e) \<in> (label_succ w l)\<^sup>* `` {head (edge_objs w e)}" by simp
  from follow_while_terminates[OF assms this] show ?thesis
    by (auto simp: follow_edge_on_label_eq)
qed

section \<open>Effects of the create operations\<close>

lemma nodes_keys_add_node: "fst ` set (nodes (snd (add_node w p ku g))) =
    insert (case ku of Some u \<Rightarrow> u | None \<Rightarrow> g) (fst ` set (nodes w))"
  by (simp add: add_node_def new_Node_def Let_def keys_dict_setitem)

lemma nodes_add_edge: "nodes (snd (add_edge w t l h po ku g)) = nodes w"
  by (simp add: add_edge_def new_Edge_def Let_def node_def split: option.splits)

lemma nodes_keys_exec_call: "fst ` set (nodes w) \<subseteq> fst ` set (nodes (exec_call w c))"
  by (cases c) (auto simp: nodes_keys_add_node nodes_add_edge)

lemma nodes_keys_exec_calls: "fst ` set (nodes w) \<subseteq> fst ` set (nodes (exec_calls w cs))"
proof (induction cs arbitrary: w)
  case Nil
  show ?case by simp
next
  case (Cons c cs)
  have "fst ` set (nodes w) \<subseteq> fst ` set (nodes (exec_call w c))"
    by (rule nodes_keys_exec_call)
  also have "\<dots> \<subseteq> fst ` set (nodes (exec_calls (exec_call w c) cs))"
    by (rule Cons.IH)
  finally show ?case by simp
qed

lemma node_uid_add_node: "node_uid (node_objs (snd (add_node w p ku g)) (fst (add_node w p ku g)))
   = (case ku of Some u \<Rightarrow> u | None \<Rightarrow> g)"
  by (simp add: add_node_def new_Node_def Let_def)

lemma add_node_uids_keys: "set (add_node_uids w cs) \<subseteq> fst ` set (nodes (exec_calls w cs))"
proof (induction w cs rule: add_node_uids.induct)
  case (1 w)
  show ?case by simp
next
  case (2 w p ku g cs)
  let ?w1 = "snd (add_node w p ku g)"
  have a: "set (add_node_uids ?w1 cs) \<subseteq> fst ` set (nodes (exec_calls ?w1 cs))"
    using "2.IH"[of "(fst (add_node w p ku g), ?w1)" "fst (add_node w p ku g)" ?w1] by simp
  have b: "(case ku of Some u \<Rightarrow> u | None \<Rightarrow> g) \<in> fst ` set (nodes ?w1)"
    by (simp add: nodes_keys_add_node)
  have c: "fst ` set (nodes ?w1) \<subseteq> fst ` set (nodes (exec_calls ?w1 cs))"
    by (rule nodes_keys_exec_calls)
  show ?case using a b c by (auto simp: split_def node_uid_add_node)
next
  case (3 w t l h po ku g cs)
  then show ?case by simp
qed

lemma stored_iff: "stored w n \<longleftrightarrow> dict_get (nodes w) (node_uid (node_objs w n)) = Some n"
  by (simp add: stored_def node_def)

lemma stored_in_nodes: "stored w n \<Longrightarrow> (node_uid (node_objs w n), n) \<in> set (nodes w)"
  by (simp add: stored_iff dict_get_def map_of_SomeD)

text \<open>The effect of \<open>add_edge\<close> when both endpoints are stored.\<close>

lemma add_edge_stored:
  assumes "stored w t" "stored w h"
  shows "add_edge w t l h po ku g =
    (let uid = (case ku of Some u \<Rightarrow> u | None \<Rightarrow> g);
         props = (case po of Some p \<Rightarrow> p | None \<Rightarrow> add_edge_default_properties);
         e = next_edge w;
         no1 = (node_objs w)(t := (node_objs w t)\<lparr>outgoing := dict_setitem (outgoing (node_objs w t)) uid e\<rparr>);
         no2 = no1(h := (no1 h)\<lparr>incoming := dict_setitem (incoming (no1 h)) uid e\<rparr>)
     in (Inr (Some e),
         w\<lparr>edge_objs := (edge_objs w)(e := \<lparr>edge_uid = uid, label = l, tail = t, head = h,
                                              edge_properties = props\<rparr>),
           next_edge := Suc e,
           edges := dict_setitem (edges w) uid e,
           node_objs := no2\<rparr>))"
  using assms
  by (simp add: add_edge_def new_Edge_def node_def stored_iff Let_def dict_get_setitem)

lemma add_edge_stored_fields:
  fixes w t l h po ku g
  defines "w1 \<equiv> snd (add_edge w t l h po ku g)"
      and "uid \<equiv> (case ku of Some u \<Rightarrow> u | None \<Rightarrow> g)"
  assumes "stored w t" "stored w h"
  shows "nodes w1 = nodes w" "next_node w1 = next_node w" "next_edge w1 = Suc (next_edge w)"
    "edges w1 = dict_setitem (edges w) uid (next_edge w)"
    "dicts w1 = dicts w"
    "edge_objs w1 = (edge_objs w)(next_edge w := \<lparr>edge_uid = uid, label = l, tail = t, head = h,
        edge_properties = (case po of Some p \<Rightarrow> p | None \<Rightarrow> add_edge_default_properties)\<rparr>)"
    "\<And>n. outgoing (node_objs w1 n) =
       (if n = t then dict_setitem (outgoing (node_objs w n)) uid (next_edge w)
        else outgoing (node_objs w n))"
    "\<And>n. incoming (node_objs w1 n) =
       (if n = h then dict_setitem (incoming (node_objs w n)) uid (next_edge w)
        else incoming (node_objs w n))"
    "\<And>n. node_uid (node_objs w1 n) = node_uid (node_objs w n)"
    "\<And>n. node_properties (node_objs w1 n) = node_properties (node_objs w n)"
  unfolding w1_def uid_def add_edge_stored[OF assms(3,4)] by (simp_all add: Let_def)

lemma graph_inv_add_node:
  assumes "graph_inv w"
  shows "graph_inv (snd (add_node w p ku g))"
proof -
  let ?uid = "case ku of Some u \<Rightarrow> u | None \<Rightarrow> g"
  let ?N = "next_node w"
  let ?w1 = "snd (add_node w p ku g)"
  have f: "nodes ?w1 = dict_setitem (nodes w) ?uid ?N" "next_node ?w1 = Suc ?N"
    "next_edge ?w1 = next_edge w" "edges ?w1 = edges w" "edge_objs ?w1 = edge_objs w"
    "node_objs ?w1 = (node_objs w)(?N := \<lparr>node_uid = ?uid, node_properties = p, outgoing = [], incoming = []\<rparr>)"
    by (simp_all add: add_node_def new_Node_def Let_def)
  have 1: "\<forall>(u, n) \<in> set (nodes ?w1). n < next_node ?w1"
    using assms set_dict_setitem_subset[of "nodes w" ?uid ?N]
    unfolding f graph_inv_def by (auto simp: less_Suc_eq)
  have 2: "adj_ok ?w1 outgoing tail" "adj_ok ?w1 incoming head"
    using assms unfolding graph_inv_def adj_ok_def f by (auto simp: less_Suc_eq)
  have 3: "\<forall>(u, e) \<in> set (edges ?w1).
         e < next_edge ?w1 \<and> edge_uid (edge_objs ?w1 e) = u
       \<and> tail (edge_objs ?w1 e) < next_node ?w1 \<and> head (edge_objs ?w1 e) < next_node ?w1
       \<and> (u, e) \<in> set (outgoing (node_objs ?w1 (tail (edge_objs ?w1 e))))
       \<and> (u, e) \<in> set (incoming (node_objs ?w1 (head (edge_objs ?w1 e))))"
    using assms unfolding graph_inv_def f by (auto simp: less_Suc_eq)
  have 4: "distinct (map fst (edges ?w1))" using assms unfolding graph_inv_def f by simp
  show ?thesis unfolding graph_inv_def using 1 2 3 4 by blast
qed

lemma adj_ok_add_edge:
  assumes ok: "adj_ok w adj end_of" and x: "x < next_node w"
      and nn: "next_node w1 = next_node w" and ne: "next_edge w1 = Suc (next_edge w)"
      and eo: "edge_objs w1 = (edge_objs w)(next_edge w := new)"
      and new: "end_of new = x" "edge_uid new = uid"
      and adj: "\<And>n. adj (node_objs w1 n) =
                 (if n = x then dict_setitem (adj (node_objs w n)) uid (next_edge w)
                  else adj (node_objs w n))"
  shows "adj_ok w1 adj end_of"
  unfolding adj_ok_def
proof (intro allI impI conjI)
  fix n assume n: "n < next_node w1"
  then have n': "n < next_node w" by (simp add: nn)
  from ok n' have d: "distinct (map fst (adj (node_objs w n)))"
    and old: "\<And>u e. (u, e) \<in> set (adj (node_objs w n)) \<Longrightarrow>
               e < next_edge w \<and> end_of (edge_objs w e) = n \<and> edge_uid (edge_objs w e) = u"
    unfolding adj_ok_def by auto
  show "distinct (map fst (adj (node_objs w1 n)))"
  proof (cases "n = x")
    case True
    have "distinct (map fst (dict_setitem (adj (node_objs w x)) uid (next_edge w)))"
      using d unfolding True by (rule distinct_dict_setitem)
    then show ?thesis unfolding True by (simp add: adj)
  next
    case False
    then show ?thesis using d by (simp add: adj)
  qed
  show "\<forall>(u, e) \<in> set (adj (node_objs w1 n)).
          e < next_edge w1 \<and> end_of (edge_objs w1 e) = n \<and> edge_uid (edge_objs w1 e) = u"
  proof (clarify)
    fix u e assume ue: "(u, e) \<in> set (adj (node_objs w1 n))"
    show "e < next_edge w1 \<and> end_of (edge_objs w1 e) = n \<and> edge_uid (edge_objs w1 e) = u"
    proof (cases "n = x \<and> (u, e) = (uid, next_edge w)")
      case True
      then show ?thesis by (simp add: ne eo new)
    next
      case False
      have "(u, e) \<in> set (adj (node_objs w n))"
      proof (cases "n = x")
        case True
        with ue have "(u, e) \<in> set (dict_setitem (adj (node_objs w n)) uid (next_edge w))"
          by (simp add: adj)
        then have "(u, e) \<in> insert (uid, next_edge w) (set (adj (node_objs w n)))"
          using set_dict_setitem_subset[of "adj (node_objs w n)" uid "next_edge w"] by (rule_tac subsetD)
        with False True show ?thesis by auto
      next
        case False
        with ue show ?thesis by (simp add: adj)
      qed
      from old[OF this] have o: "e < next_edge w" "end_of (edge_objs w e) = n"
        "edge_uid (edge_objs w e) = u" by simp_all
      from o(1) have "edge_objs w1 e = edge_objs w e" by (simp add: eo)
      with o show ?thesis by (simp add: ne)
    qed
  qed
qed

lemma graph_inv_add_edge:
  assumes inv: "graph_inv w" and st: "stored w t" "stored w h"
  shows "graph_inv (snd (add_edge w t l h po ku g))"
proof -
  let ?uid = "case ku of Some u \<Rightarrow> u | None \<Rightarrow> g"
  let ?e = "next_edge w"
  let ?w1 = "snd (add_edge w t l h po ku g)"
  let ?new = "\<lparr>edge_uid = ?uid, label = l, tail = t, head = h,
        edge_properties = (case po of Some p \<Rightarrow> p | None \<Rightarrow> add_edge_default_properties)\<rparr>"
  note f = add_edge_stored_fields[OF st, of l po ku g]
  from inv have nodes_lt: "\<And>u n. (u, n) \<in> set (nodes w) \<Longrightarrow> n < next_node w"
    and de: "distinct (map fst (edges w))"
    and ed: "\<And>u e. (u, e) \<in> set (edges w) \<Longrightarrow>
         e < next_edge w \<and> edge_uid (edge_objs w e) = u
       \<and> tail (edge_objs w e) < next_node w \<and> head (edge_objs w e) < next_node w
       \<and> (u, e) \<in> set (outgoing (node_objs w (tail (edge_objs w e))))
       \<and> (u, e) \<in> set (incoming (node_objs w (head (edge_objs w e))))"
    and oo: "adj_ok w outgoing tail" and oi: "adj_ok w incoming head"
    unfolding graph_inv_def by auto
  have t: "t < next_node w" using stored_in_nodes[OF st(1)] nodes_lt by blast
  have h: "h < next_node w" using stored_in_nodes[OF st(2)] nodes_lt by blast
  have 1: "\<forall>(u, n) \<in> set (nodes ?w1). n < next_node ?w1"
    using nodes_lt by (auto simp: f)
  have 2: "distinct (map fst (edges ?w1))"
    using de by (simp add: f distinct_dict_setitem)
  have 4: "adj_ok ?w1 outgoing tail"
    by (rule adj_ok_add_edge[OF oo t f(2) f(3) f(6) _ _ f(7)]) simp_all
  have 5: "adj_ok ?w1 incoming head"
    by (rule adj_ok_add_edge[OF oi h f(2) f(3) f(6) _ _ f(8)]) simp_all
  have dout: "\<And>n. n < next_node w \<Longrightarrow> distinct (map fst (outgoing (node_objs w n)))"
    and din: "\<And>n. n < next_node w \<Longrightarrow> distinct (map fst (incoming (node_objs w n)))"
    using oo oi unfolding adj_ok_def by auto
  have 3: "\<forall>(u, e) \<in> set (edges ?w1).
         e < next_edge ?w1 \<and> edge_uid (edge_objs ?w1 e) = u
       \<and> tail (edge_objs ?w1 e) < next_node ?w1 \<and> head (edge_objs ?w1 e) < next_node ?w1
       \<and> (u, e) \<in> set (outgoing (node_objs ?w1 (tail (edge_objs ?w1 e))))
       \<and> (u, e) \<in> set (incoming (node_objs ?w1 (head (edge_objs ?w1 e))))"
  proof (clarify)
    fix u e assume "(u, e) \<in> set (edges ?w1)"
    then have ue: "(u, e) \<in> insert (?uid, ?e) {kv \<in> set (edges w). fst kv \<noteq> ?uid}"
      using set_dict_setitem[OF de, of ?uid ?e] by (simp add: f)
    show "e < next_edge ?w1 \<and> edge_uid (edge_objs ?w1 e) = u
       \<and> tail (edge_objs ?w1 e) < next_node ?w1 \<and> head (edge_objs ?w1 e) < next_node ?w1
       \<and> (u, e) \<in> set (outgoing (node_objs ?w1 (tail (edge_objs ?w1 e))))
       \<and> (u, e) \<in> set (incoming (node_objs ?w1 (head (edge_objs ?w1 e))))"
    proof (cases "(u, e) = (?uid, ?e)")
      case True
      then show ?thesis using t h by (simp add: f in_set_dict_setitem)
    next
      case False
      with ue have old: "(u, e) \<in> set (edges w)" and u: "u \<noteq> ?uid" by auto
      note o = ed[OF old]
      then have e: "e \<noteq> ?e" by auto
      let ?t = "tail (edge_objs w e)" and ?h = "head (edge_objs w e)"
      have a: "(u, e) \<in> set (dict_setitem (outgoing (node_objs w ?t)) ?uid ?e)"
        using o u set_dict_setitem[OF dout[of ?t], of ?uid ?e] by auto
      have b: "(u, e) \<in> set (dict_setitem (incoming (node_objs w ?h)) ?uid ?e)"
        using o u set_dict_setitem[OF din[of ?h], of ?uid ?e] by auto
      have eo: "edge_objs ?w1 e = edge_objs w e" using e by (simp add: f)
      have c: "(u, e) \<in> set (outgoing (node_objs ?w1 ?t))"
        using o a by (cases "?t = t") (simp_all add: f)
      have d: "(u, e) \<in> set (incoming (node_objs ?w1 ?h))"
        using o b by (cases "?h = h") (simp_all add: f)
      show ?thesis unfolding eo using o c d by (simp add: f(2,3))
    qed
  qed
  show ?thesis unfolding graph_inv_def using 1 2 3 4 5 by blast
qed

lemma graph_inv_fresh: "fresh_graph w \<Longrightarrow> graph_inv w"
  by (simp add: fresh_graph_def graph_inv_def adj_ok_def)

lemma graph_inv_exec_calls:
  "graph_inv w \<Longrightarrow> endpoints_stored w cs \<Longrightarrow> graph_inv (exec_calls w cs)"
proof (induction cs arbitrary: w)
  case Nil
  then show ?case by simp
next
  case (Cons c cs)
  show ?case
  proof (cases c)
    case (Add_node p ku g)
    have "graph_inv (exec_call w c)"
      using Cons.prems(1) by (simp add: Add_node graph_inv_add_node)
    moreover have "endpoints_stored (exec_call w c) cs"
      using Cons.prems(2) by (simp add: Add_node)
    ultimately show ?thesis using Cons.IH by simp
  next
    case (Add_edge t l h po ku g)
    from Cons.prems(2) have st: "stored w t" "stored w h"
      and rest: "endpoints_stored (exec_call w c) cs"
      by (simp_all add: Add_edge)
    have "graph_inv (exec_call w c)"
      using graph_inv_add_edge[OF Cons.prems(1) st] by (simp add: Add_edge)
    with rest show ?thesis using Cons.IH by simp
  qed
qed

lemma adj_ok_linked:
  assumes ok: "adj_ok w adj end_of"
      and x: "end_of (edge_objs w e) < next_node w"
      and mem: "(edge_uid (edge_objs w e), e) \<in> set (adj (node_objs w (end_of (edge_objs w e))))"
  shows "filter (\<lambda>n. e \<in> snd ` set (adj (node_objs w n))) [0..<next_node w]
           = [end_of (edge_objs w e)]"
    and "filter (\<lambda>kv. snd kv = e) (adj (node_objs w (end_of (edge_objs w e))))
           = [(edge_uid (edge_objs w e), e)]"
proof -
  let ?x = "end_of (edge_objs w e)"
  from ok have ends: "\<And>n u. n < next_node w \<Longrightarrow> (u, e) \<in> set (adj (node_objs w n))
      \<Longrightarrow> n = ?x \<and> u = edge_uid (edge_objs w e)"
    and dist: "\<And>n. n < next_node w \<Longrightarrow> distinct (map fst (adj (node_objs w n)))"
    unfolding adj_ok_def by fastforce+
  show "filter (\<lambda>n. e \<in> snd ` set (adj (node_objs w n))) [0..<next_node w] = [?x]"
  proof (rule filter_singleton)
    show "distinct [0..<next_node w]" by simp
    show "?x \<in> set [0..<next_node w]" using x by simp
    fix n assume "n \<in> set [0..<next_node w]"
    then have n: "n < next_node w" by simp
    show "(e \<in> snd ` set (adj (node_objs w n))) = (n = ?x)"
    proof
      assume "e \<in> snd ` set (adj (node_objs w n))"
      then obtain u where "(u, e) \<in> set (adj (node_objs w n))" by auto
      from ends[OF n this] show "n = ?x" by simp
    next
      assume "n = ?x"
      with mem show "e \<in> snd ` set (adj (node_objs w n))" by force
    qed
  qed
  show "filter (\<lambda>kv. snd kv = e) (adj (node_objs w ?x)) = [(edge_uid (edge_objs w e), e)]"
  proof (rule filter_singleton)
    show "distinct (adj (node_objs w ?x))" using dist[OF x] by (simp add: distinct_map)
    show "(edge_uid (edge_objs w e), e) \<in> set (adj (node_objs w ?x))" by (rule mem)
    fix kv assume kv: "kv \<in> set (adj (node_objs w ?x))"
    show "(snd kv = e) = (kv = (edge_uid (edge_objs w e), e))"
    proof
      assume s: "snd kv = e"
      then have c: "kv = (fst kv, e)" by (simp add: prod_eq_iff)
      with kv have "(fst kv, e) \<in> set (adj (node_objs w ?x))" by simp
      from ends[OF x this] have "fst kv = edge_uid (edge_objs w e)" by simp
      with s show "kv = (edge_uid (edge_objs w e), e)" by (simp add: prod_eq_iff)
    next
      assume "kv = (edge_uid (edge_objs w e), e)"
      then show "snd kv = e" by simp
    qed
  qed
qed

lemma graph_inv_linked:
  assumes inv: "graph_inv w" and mem: "(u, e) \<in> set (edges w)"
  shows "edge_linked_once w e"
proof -
  from inv mem have u: "edge_uid (edge_objs w e) = u"
    and t: "tail (edge_objs w e) < next_node w" and h: "head (edge_objs w e) < next_node w"
    and mo: "(u, e) \<in> set (outgoing (node_objs w (tail (edge_objs w e))))"
    and mi: "(u, e) \<in> set (incoming (node_objs w (head (edge_objs w e))))"
    unfolding graph_inv_def by fastforce+
  from inv have oo: "adj_ok w outgoing tail" and oi: "adj_ok w incoming head"
    unfolding graph_inv_def by simp_all
  show ?thesis
    unfolding edge_linked_once_def
    using adj_ok_linked[OF oo t] adj_ok_linked[OF oi h] mo mi u by simp
qed

text \<open>Edge objects, once made, are left alone by the create operations.\<close>

lemma add_edge_edge_objs:
  assumes "e < next_edge w"
  shows "edge_objs (snd (add_edge w t l h po ku g)) e = edge_objs w e"
    and "e < next_edge (snd (add_edge w t l h po ku g))"
  using assms
  by (auto simp: add_edge_def new_Edge_def Let_def node_def split: option.splits)

lemma add_node_edge_objs:
  "edge_objs (snd (add_node w p ku g)) = edge_objs w"
  "next_edge (snd (add_node w p ku g)) = next_edge w"
  by (simp_all add: add_node_def new_Node_def Let_def)

lemma exec_call_edge_objs:
  assumes "e < next_edge w"
  shows "edge_objs (exec_call w c) e = edge_objs w e \<and> e < next_edge (exec_call w c)"
  using assms by (cases c) (simp_all add: add_node_edge_objs add_edge_edge_objs)

lemma exec_calls_edge_objs:
  "e < next_edge w \<Longrightarrow>
   edge_objs (exec_calls w cs) e = edge_objs w e \<and> e < next_edge (exec_calls w cs)"
proof (induction cs arbitrary: w)
  case Nil
  then show ?case by simp
next
  case (Cons c cs)
  from exec_call_edge_objs[OF Cons.prems, of c]
  have a: "edge_objs (exec_call w c) e = edge_objs w e" and b: "e < next_edge (exec_call w c)"
    by simp_all
  from Cons.IH[OF b] a show ?case by simp
qed

lemma add_edge_Some:
  assumes "fst (add_edge w t l h po ku g) = Inr (Some e)"
  shows "e = next_edge w" and "e < next_edge (snd (add_edge w t l h po ku g))"
    and "edge_properties (edge_objs (snd (add_edge w t l h po ku g)) e) =
           (case po of Some p \<Rightarrow> p | None \<Rightarrow> add_edge_default_properties)"
  using assms
  by (auto simp: add_edge_def new_Edge_def Let_def node_def dict_get_setitem
           split: option.splits if_splits)

text \<open>
  What \<open>_match_dict\<close> counts: the query pairs whose value is \<open>==\<close> to
  \<open>d1.get(key)\<close>. For a query without \<open>None\<close> values these are the pairs whose key
  the candidate maps to an equal value.
\<close>

lemma match_dict_count:
  "fst (match_dict w d1 d2) =
     length (filter (\<lambda>(k, v). py_eq (get_or_None (dicts w d1) k) v) (dicts w d2))"
  by (simp add: match_dict_def match_loop_eq)

lemma match_dict_empty_query: "dicts w d2 = [] \<Longrightarrow> fst (match_dict w d1 d2) = 0"
  by (simp add: match_dict_def)

lemma py_eq_get_or_None:
  "v \<noteq> PNone \<Longrightarrow> py_eq (get_or_None d k) v \<longleftrightarrow> (\<exists>x. dict_get d k = Some x \<and> py_eq x v)"
  by (cases "dict_get d k"; cases v) (simp_all add: get_or_None_def)

lemma match_dict_without_None:
  assumes "\<forall>(k, v) \<in> set (dicts w d2). v \<noteq> PNone"
  shows "fst (match_dict w d1 d2) =
     length (filter (\<lambda>(k, v). \<exists>x. dict_get (dicts w d1) k = Some x \<and> py_eq x v) (dicts w d2))"
proof -
  have "filter (\<lambda>(k, v). py_eq (get_or_None (dicts w d1) k) v) (dicts w d2) =
        filter (\<lambda>(k, v). \<exists>x. dict_get (dicts w d1) k = Some x \<and> py_eq x v) (dicts w d2)"
    using assms by (intro filter_cong refl) (auto simp: py_eq_get_or_None)
  then show ?thesis by (simp add: match_dict_count)
qed

text \<open>
  When \<open>add_edge\<close> returns: \<open>None\<close> exactly when neither endpoint's uid is a key of
  the node mapping, the new edge when both are.
\<close>

lemma add_edge_returns:
  "(fst (add_edge w t l h po ku g) = Inr None \<longleftrightarrow>
      fst (node w (node_uid (node_objs w t))) = None \<and>
      fst (node w (node_uid (node_objs w h))) = None)
   \<and> (fst (node w (node_uid (node_objs w t))) \<noteq> None \<and>
      fst (node w (node_uid (node_objs w h))) \<noteq> None \<longrightarrow>
      (\<exists>e. fst (add_edge w t l h po ku g) = Inr (Some e) \<and>
           edge_objs (snd (add_edge w t l h po ku g)) e =
             \<lparr>edge_uid = (case ku of Some u \<Rightarrow> u | None \<Rightarrow> g), label = l, tail = t, head = h,
              edge_properties =
                (case po of Some p \<Rightarrow> p | None \<Rightarrow> add_edge_default_properties)\<rparr>))"
proof (intro conjI impI)
  show "fst (add_edge w t l h po ku g) = Inr None \<longleftrightarrow>
      fst (node w (node_uid (node_objs w t))) = None \<and>
      fst (node w (node_uid (node_objs w h))) = None"
    by (auto simp: add_edge_def node_def new_Edge_def Let_def dict_get_setitem
             split: option.splits)
next
  assume "fst (node w (node_uid (node_objs w t))) \<noteq> None \<and>
      fst (node w (node_uid (node_objs w h))) \<noteq> None"
  then obtain tn hn where "dict_get (nodes w) (node_uid (node_objs w t)) = Some tn"
    and "dict_get (nodes w) (node_uid (node_objs w h)) = Some hn"
    by (auto simp: node_def)
  then show "\<exists>e. fst (add_edge w t l h po ku g) = Inr (Some e) \<and>
           edge_objs (snd (add_edge w t l h po ku g)) e =
             \<lparr>edge_uid = (case ku of Some u \<Rightarrow> u | None \<Rightarrow> g), label = l, tail = t, head = h,
              edge_properties =
                (case po of Some p \<Rightarrow> p | None \<Rightarrow> add_edge_default_properties)\<rparr>"
    by (simp add: add_edge_def node_def new_Edge_def Let_def dict_get_setitem)
qed


section \<open>Facts about the concrete graphs\<close>

lemma w_two_facts:
  "nodes w_two = [(''a'', 0), (''b'', 1)]"
  "node_uid (node_objs w_two 0) = ''a''" "node_uid (node_objs w_two (Suc 0)) = ''b''"
  "next_edge w_two = 0" "next_node w_two = 2"
  by (simp_all add: w_two_def op_defs Let_def)

lemma w_chain_facts:
  "edges w_chain = [(''e1'', 0), (''e2'', 1)]"
  "head (edge_objs w_chain 0) = 1"
  "first_labelled w_chain (Suc 0) ''WITHIN'' = Some 1"
  "head (edge_objs w_chain (Suc 0)) = 2"
  "first_labelled w_chain 2 ''WITHIN'' = None"
  by (simp_all add: w_chain_def chain_calls_def first_labelled_def op_defs Let_def)

lemma w_chain_adjacency:
  "outgoing (node_objs w_chain n) =
     (if n = 0 then [(''e1'', 0)] else if n = 1 then [(''e2'', 1)] else [])"
  "label (edge_objs w_chain 0) = ''WITHIN''" "label (edge_objs w_chain (Suc 0)) = ''WITHIN''"
  by (simp_all add: w_chain_def chain_calls_def op_defs Let_def)

lemma w_cycle_facts:
  "first_labelled w_cycle 0 ''L'' = Some 0" "head (edge_objs w_cycle 0) = 1"
  "first_labelled w_cycle (Suc 0) ''L'' = Some 1" "head (edge_objs w_cycle (Suc 0)) = 0"
  by (simp_all add: w_cycle_def first_labelled_def op_defs Let_def)

lemma w_escape_facts:
  "edges w_escape = [(''yz'', 0), (''xy'', 1), (''yx'', 2)]"
  "edge_objs w_escape (Suc 0) =
     \<lparr>edge_uid = ''xy'', label = ''L'', tail = 0, head = 1, edge_properties = 0\<rparr>"
  "edge_objs w_escape 2 =
     \<lparr>edge_uid = ''yx'', label = ''L'', tail = 1, head = 0, edge_properties = 0\<rparr>"
  "outgoing (node_objs w_escape 0) = [(''xy'', 1)]"
  "outgoing (node_objs w_escape (Suc 0)) = [(''yz'', 0), (''yx'', 2)]"
  "first_labelled w_escape (Suc 0) ''L'' = Some 0"
  "head (edge_objs w_escape 0) = 2"
  "first_labelled w_escape 2 ''L'' = None"
  by (simp_all add: w_escape_def first_labelled_def op_defs Let_def)

lemma follow_chain: "follow_edge_on_label w_chain 0 ''WITHIN'' = Some (Some 2, w_chain)"
proof -
  have s: "first_labelled w_chain (Suc 0) ''WITHIN'' = Some 1"
    by (simp add: w_chain_facts)
  have "walk_to w_chain ''WITHIN'' (head (edge_objs w_chain 1)) 2"
    by (simp add: w_chain_facts walk_to.stop)
  with s have "walk_to w_chain ''WITHIN'' (Suc 0) 2"
    by (rule walk_to.step)
  then show ?thesis
    by (simp add: follow_edge_on_label_eq w_chain_facts walk_follow)
qed

lemma chain_succ:
  "(n, m) \<in> label_succ w_chain ''WITHIN'' \<longleftrightarrow> (n = 0 \<and> m = 1) \<or> (n = 1 \<and> m = 2)"
  by (auto simp: label_succ_def w_chain_adjacency w_chain_facts split: if_splits)

lemma chain_succ_trancl: "(n, m) \<in> (label_succ w_chain ''WITHIN'')\<^sup>+ \<Longrightarrow> n < m"
  by (induction rule: trancl.induct) (auto simp: chain_succ)

lemma chain_succ_reach:
  "(n, m) \<in> (label_succ w_chain ''WITHIN'')\<^sup>* \<Longrightarrow> n = 1 \<Longrightarrow> m = 1 \<or> m = 2"
  by (induction rule: rtrancl.induct) (auto simp: chain_succ)

section \<open>The claims\<close>

text \<open>
  C1, at the inputs where the code departs from it: in \<open>w_one\<close> node 0 is stored
  under its uid and the uid of node 1 is not a key of the node mapping. The guard lets
  the call through, the edge is written to the edge mapping, and \<open>self.nodes[...]\<close>
  raises \<open>KeyError\<close>, whichever endpoint is the missing one; the claim has the call
  return the edge.
\<close>

theorem add_edge_one_endpoint_raises:
  "fst (node w_one (node_uid (node_objs w_one 0))) = Some 0 \<and>
   fst (node w_one (node_uid (node_objs w_one 1))) = None \<and>
   fst (add_edge w_one 0 ''L'' 1 None None ''e'') = Inl KeyError \<and>
   edges (snd (add_edge w_one 0 ''L'' 1 None None ''e'')) = [(''e'', 0)] \<and>
   outgoing (node_objs (snd (add_edge w_one 0 ''L'' 1 None None ''e'')) 0) = [(''e'', 0)] \<and>
   fst (add_edge w_one 1 ''L'' 0 None None ''e'') = Inl KeyError \<and>
   edges (snd (add_edge w_one 1 ''L'' 0 None None ''e'')) = [(''e'', 0)]"
  by (simp add: w_one_def op_defs Let_def)

text \<open>
  C5: when tail and head are nodes stored in the node mapping, \<open>add_edge\<close> returns an
  edge \<open>e\<close> with the given label, properties and endpoints, and afterwards
  \<open>tail.outgoing[e.uid]\<close>, \<open>head.incoming[e.uid]\<close> and \<open>graph.edge(e.uid)\<close> are
  all \<open>e\<close>.
\<close>

theorem add_edge_links:
  assumes "stored w t" and "stored w h"
  shows "\<exists>e. fst (add_edge w t l h (Some p) ku g) = Inr (Some e) \<and>
     (let w1 = snd (add_edge w t l h (Some p) ku g); u = edge_uid (edge_objs w1 e)
      in label (edge_objs w1 e) = l \<and> edge_properties (edge_objs w1 e) = p
       \<and> tail (edge_objs w1 e) = t \<and> head (edge_objs w1 e) = h
       \<and> dict_get (outgoing (node_objs w1 t)) u = Some e
       \<and> dict_get (incoming (node_objs w1 h)) u = Some e
       \<and> fst (edge w1 u) = Some e)"
proof -
  note f = add_edge_stored_fields[OF assms, of l "Some p" ku g]
  have "fst (add_edge w t l h (Some p) ku g) = Inr (Some (next_edge w))"
    by (simp add: add_edge_stored[OF assms] Let_def)
  then show ?thesis
    by (simp add: Let_def f edge_def dict_get_setitem)
qed

theorem add_edge_links_witness:
  "stored w_two 0 \<and> stored w_two 1 \<and>
   (\<exists>e. fst (add_edge w_two 0 ''L'' 1 (Some 3) None ''e'') = Inr (Some e) \<and>
     (let w1 = snd (add_edge w_two 0 ''L'' 1 (Some 3) None ''e''); u = edge_uid (edge_objs w1 e)
      in label (edge_objs w1 e) = ''L'' \<and> edge_properties (edge_objs w1 e) = 3
       \<and> tail (edge_objs w1 e) = 0 \<and> head (edge_objs w1 e) = 1
       \<and> dict_get (outgoing (node_objs w1 0)) u = Some e
       \<and> dict_get (incoming (node_objs w1 1)) u = Some e
       \<and> fst (edge w1 u) = Some e))"
proof -
  have s: "stored w_two 0" "stored w_two 1"
    by (simp_all add: stored_iff w_two_facts dict_get_def)
  from add_edge_links[OF s, of "''L''" 3 None "''e''"] s show ?thesis by simp
qed

text \<open>
  C6, at the input where the code departs from it: for the candidate \<open>{}\<close> and the
  query \<open>{'a': None}\<close>, \<open>_match_dict\<close> returns 1, because \<open>d1.get(key)\<close> is
  \<open>None\<close> for the missing key, while no pair of the query is in the candidate.
\<close>

theorem match_dict_none_value:
  "dicts w_none 1 = [] \<and> dicts w_none 2 = [(''a'', PNone)] \<and>
   fst (match_dict w_none 1 2) = 1 \<and> spec_match_count (dicts w_none 1) (dicts w_none 2) = 0"
  by (simp add: w_none_def op_defs spec_match_count_def get_or_None_def)

text \<open>
  C7, at the input where the code departs from it: the only node has no properties,
  the query is \<open>{'a': None}\<close>, and \<open>find_node\<close> returns that node although it
  shares no key/value pair with the query.
\<close>

theorem find_node_none_value:
  "nodes w_none = [(''n'', 0)] \<and> dicts w_none (node_properties (node_objs w_none 0)) = [] \<and>
   dicts w_none 2 = [(''a'', PNone)] \<and>
   fst (find_node w_none 2) = [0] \<and> spec_find_node w_none 2 = []"
  by (simp add: w_none_def op_defs spec_match_count_def spec_find_node_def get_or_None_def
        Let_def)

text \<open>
  C4: \<open>follow_edge_on_label\<close> returns \<open>None\<close> exactly when the head of the edge has
  no outgoing edge with the label; it returns a node \<open>m\<close> exactly when the head has
  such an edge and stepping along the first labelled outgoing edge of each node, from
  the head on, reaches \<open>m\<close> as the first node without one. On the chain
  A --WITHIN--> B --WITHIN--> C the call on the edge from A to B returns C.
\<close>

theorem follow_edge_on_label_spec:
  "(follow_edge_on_label w e l = Some (None, w1) \<longleftrightarrow>
      w1 = w \<and> filter (\<lambda>(u, e1). label (edge_objs w e1) = l)
                  (outgoing (node_objs w (head (edge_objs w e)))) = [])
   \<and> (follow_edge_on_label w e l = Some (Some m, w1) \<longleftrightarrow>
      w1 = w \<and> filter (\<lambda>(u, e1). label (edge_objs w e1) = l)
                  (outgoing (node_objs w (head (edge_objs w e)))) \<noteq> []
      \<and> walk_to w l (head (edge_objs w e)) m)"
proof -
  let ?h = "head (edge_objs w e)"
  have z: "first_labelled w ?h l = None \<longleftrightarrow>
      filter (\<lambda>(u, e1). label (edge_objs w e1) = l) (outgoing (node_objs w ?h)) = []"
    by (simp add: first_labelled_None find_out_fst)
  have a: "map_option (\<lambda>(n, w2). (Some n, w2)) x = Some (Some m, w1) \<longleftrightarrow> x = Some (m, w1)"
    for x :: "(ref \<times> world) option"
    by (cases x) auto
  have b: "map_option (\<lambda>(n, w2). (Some n, w2)) x \<noteq> Some (None, w1)"
    for x :: "(ref \<times> world) option"
    by (cases x) auto
  show ?thesis
    unfolding follow_edge_on_label_eq z[symmetric]
    by (auto simp: a b follow_while_iff)
qed

theorem follow_edge_on_label_spec_witness:
  "filter (\<lambda>(u, e1). label (edge_objs w_chain e1) = ''WITHIN'')
      (outgoing (node_objs w_chain (head (edge_objs w_chain 0)))) \<noteq> []
   \<and> walk_to w_chain ''WITHIN'' (head (edge_objs w_chain 0)) 2
   \<and> follow_edge_on_label w_chain 0 ''WITHIN'' = Some (Some 2, w_chain)
   \<and> follow_edge_on_label w_chain 1 ''WITHIN'' = Some (None, w_chain)"
proof -
  have s: "first_labelled w_chain (Suc 0) ''WITHIN'' = Some 1"
    by (simp add: w_chain_facts)
  have "walk_to w_chain ''WITHIN'' (head (edge_objs w_chain 1)) 2"
    by (simp add: w_chain_facts walk_to.stop)
  with s have "walk_to w_chain ''WITHIN'' (Suc 0) 2"
    by (rule walk_to.step)
  then have wk: "walk_to w_chain ''WITHIN'' (head (edge_objs w_chain 0)) 2"
    by (simp add: w_chain_facts)
  have ne: "filter (\<lambda>(u, e1). label (edge_objs w_chain e1) = ''WITHIN'')
      (outgoing (node_objs w_chain (head (edge_objs w_chain 0)))) \<noteq> []"
    by (simp add: w_chain_facts w_chain_adjacency)
  have em: "filter (\<lambda>(u, e1). label (edge_objs w_chain e1) = ''WITHIN'')
      (outgoing (node_objs w_chain (head (edge_objs w_chain 1)))) = []"
    by (simp add: w_chain_facts w_chain_adjacency)
  show ?thesis
    using follow_edge_on_label_spec[of w_chain 0 "''WITHIN''" w_chain 2]
      follow_edge_on_label_spec[of w_chain 1 "''WITHIN''" w_chain 2] wk ne em
    by simp
qed

text \<open>
  C2, as the code has it: when the first outgoing edge labelled \<open>l\<close> of \<open>x\<close> leads to
  \<open>y\<close> and the first one of \<open>y\<close> leads back to \<open>x\<close>, the call on an edge whose
  head is \<open>y\<close> does not return; and when the nodes reachable from the head along
  edges labelled \<open>l\<close> are finitely many and none of them lies on a cycle of such edges,
  the call returns.
\<close>

theorem follow_edge_on_label_termination:
  "(first_labelled w x l = Some e1 \<and> head (edge_objs w e1) = y \<and>
    first_labelled w y l = Some e2 \<and> head (edge_objs w e2) = x \<and>
    head (edge_objs w e) = y \<longrightarrow> follow_edge_on_label w e l = None)
   \<and> (finite ((label_succ w l)\<^sup>* `` {head (edge_objs w e)}) \<and>
      (\<forall>n \<in> (label_succ w l)\<^sup>* `` {head (edge_objs w e)}. (n, n) \<notin> (label_succ w l)\<^sup>+)
      \<longrightarrow> (\<exists>r. follow_edge_on_label w e l = Some (r, w)))"
  using follow_cycle_diverges[of w x l e1 y e2 e] follow_acyclic_terminates[of w l e]
  by blast

theorem follow_edge_on_label_termination_witness:
  "first_labelled w_cycle 0 ''L'' = Some 0 \<and> head (edge_objs w_cycle 0) = 1 \<and>
   first_labelled w_cycle 1 ''L'' = Some 1 \<and> head (edge_objs w_cycle 1) = 0 \<and>
   follow_edge_on_label w_cycle 0 ''L'' = None \<and>
   finite ((label_succ w_chain ''WITHIN'')\<^sup>* `` {head (edge_objs w_chain 0)}) \<and>
   (label_succ w_chain ''WITHIN'')\<^sup>* `` {head (edge_objs w_chain 0)}
     \<inter> {n. (n, n) \<in> (label_succ w_chain ''WITHIN'')\<^sup>+} = {} \<and>
   (\<exists>r. follow_edge_on_label w_chain 0 ''WITHIN'' = Some (r, w_chain))"
proof -
  let ?R = "label_succ w_chain ''WITHIN''"
  have sub: "?R\<^sup>* `` {head (edge_objs w_chain 0)} \<subseteq> {1, 2}"
    using chain_succ_reach by (auto simp: w_chain_facts)
  then have fin: "finite (?R\<^sup>* `` {head (edge_objs w_chain 0)})"
    by (rule finite_subset) simp
  have acyc: "\<forall>n \<in> ?R\<^sup>* `` {head (edge_objs w_chain 0)}. (n, n) \<notin> ?R\<^sup>+"
    using chain_succ_trancl by blast
  have c: "first_labelled w_cycle 0 ''L'' = Some 0 \<and> head (edge_objs w_cycle 0) = 1 \<and>
     first_labelled w_cycle 1 ''L'' = Some 1 \<and> head (edge_objs w_cycle 1) = 0"
    by (simp add: w_cycle_facts)
  have disj: "?R\<^sup>* `` {head (edge_objs w_chain 0)} \<inter> {n. (n, n) \<in> ?R\<^sup>+} = {}"
    using acyc by blast
  have "follow_edge_on_label w_cycle 0 ''L'' = None"
    using follow_edge_on_label_termination[of w_cycle 0 "''L''" 0 1 1 0] c by simp
  moreover have "\<exists>r. follow_edge_on_label w_chain 0 ''WITHIN'' = Some (r, w_chain)"
    using follow_edge_on_label_termination[of w_chain 0 "''WITHIN''" 0 1 1 0] fin acyc
    by blast
  ultimately show ?thesis using c fin disj by simp
qed

text \<open>
  C2 as stated fails: \<open>w_escape\<close> contains the cycle X --L--> Y --L--> X (edges 1 and
  2), but Y's first outgoing edge labelled L is the older edge 0 to Z, so the call on
  the edge from X to Y returns Z.
\<close>

theorem follow_edge_on_label_leaves_cycle:
  "edges w_escape = [(''yz'', 0), (''xy'', 1), (''yx'', 2)] \<and>
   edge_objs w_escape 1 =
     \<lparr>edge_uid = ''xy'', label = ''L'', tail = 0, head = 1, edge_properties = 0\<rparr> \<and>
   edge_objs w_escape 2 =
     \<lparr>edge_uid = ''yx'', label = ''L'', tail = 1, head = 0, edge_properties = 0\<rparr> \<and>
   outgoing (node_objs w_escape 0) = [(''xy'', 1)] \<and>
   outgoing (node_objs w_escape 1) = [(''yz'', 0), (''yx'', 2)] \<and>
   follow_edge_on_label w_escape 1 ''L'' = Some (Some 2, w_escape)"
proof -
  have "walk_to w_escape ''L'' (head (edge_objs w_escape 0)) 2"
    by (simp add: w_escape_facts walk_to.stop)
  with w_escape_facts(6) have "walk_to w_escape ''L'' (Suc 0) 2"
    by (rule walk_to.step)
  then have "follow_edge_on_label w_escape 1 ''L'' = Some (Some 2, w_escape)"
    by (simp add: follow_edge_on_label_eq w_escape_facts walk_follow)
  then show ?thesis by (simp add: w_escape_facts)
qed

text \<open>
  C3, as the code has it: in every state reached from a fresh graph by \<open>add_node\<close>
  calls and by \<open>add_edge\<close> calls whose tail and head are nodes stored in the node
  mapping when the call is made, every edge of the edge mapping is in the outgoing map
  of exactly one node object, its tail, there once and under its uid, and in the
  incoming map of exactly one node object, its head, there once and under its uid.
\<close>

theorem stored_edges_linked_once:
  assumes "fresh_graph w0" and "endpoints_stored w0 cs"
  shows "\<forall>(u, e) \<in> set (edges (exec_calls w0 cs)). edge_linked_once (exec_calls w0 cs) e"
proof -
  have "graph_inv (exec_calls w0 cs)"
    using assms by (intro graph_inv_exec_calls graph_inv_fresh)
  then show ?thesis by (auto intro: graph_inv_linked)
qed

theorem stored_edges_linked_once_witness:
  "fresh_graph empty_world \<and> endpoints_stored empty_world chain_calls \<and>
   edges (exec_calls empty_world chain_calls) = [(''e1'', 0), (''e2'', 1)] \<and>
   edge_linked_once (exec_calls empty_world chain_calls) 0 \<and>
   edge_linked_once (exec_calls empty_world chain_calls) 1"
proof -
  have f: "fresh_graph empty_world" by (simp add: fresh_graph_def empty_world_def)
  have s: "endpoints_stored empty_world chain_calls"
    by (simp add: chain_calls_def stored_def op_defs Let_def)
  have e: "edges (exec_calls empty_world chain_calls) = [(''e1'', 0), (''e2'', 1)]"
    using w_chain_facts(1) by (simp add: w_chain_def)
  from stored_edges_linked_once[OF f s] f s e show ?thesis by simp
qed

text \<open>
  C3 as stated fails: a second \<open>add_node\<close> call with the explicit uid of the first
  replaces it in the node mapping; \<open>add_edge\<close> called with the first node then files
  the edge in the maps of the second node, while the edge's tail and head are the
  first.
\<close>

theorem stale_endpoint_not_linked:
  "fresh_graph empty_world \<and>
   nodes (exec_calls empty_world stale_calls) = [(''n'', 1)] \<and>
   edges (exec_calls empty_world stale_calls) = [(''e'', 0)] \<and>
   tail (edge_objs (exec_calls empty_world stale_calls) 0) = 0 \<and>
   outgoing (node_objs (exec_calls empty_world stale_calls) 0) = [] \<and>
   outgoing (node_objs (exec_calls empty_world stale_calls) 1) = [(''e'', 0)] \<and>
   \<not> edge_linked_once (exec_calls empty_world stale_calls) 0"
  by (simp add: stale_calls_def fresh_graph_def edge_linked_once_def op_defs Let_def)



text \<open>
  C9: \<open>_match_dict\<close>, \<open>find_node\<close>, both label filters and the lookups \<open>node\<close> and
  \<open>edge\<close> return the world they were given, and so does \<open>follow_edge_on_label\<close>
  whenever it returns: node mapping, edge mapping, every node's maps and every
  property dictionary are as before the call.
\<close>

theorem queries_leave_world_unchanged:
  "snd (match_dict w d1 d2) = w \<and> snd (find_node w q) = w
   \<and> snd (find_node_edges_label_outgoing w n l) = w
   \<and> snd (find_node_edges_label_incoming w n l) = w
   \<and> snd (node w u) = w \<and> snd (edge w u) = w
   \<and> (\<forall>r w1. follow_edge_on_label w e l = Some (r, w1) \<longrightarrow> w1 = w)"
proof -
  have "w1 = w" if "follow_edge_on_label w e l = Some (r, w1)" for r w1
  proof (cases "first_labelled w (head (edge_objs w e)) l = None")
    case True
    with that show ?thesis by (simp add: follow_edge_on_label_eq)
  next
    case False
    with that obtain m where
      "follow_while w l (head (edge_objs w e))
         (fst (find_node_edges_label_outgoing w (head (edge_objs w e)) l)) = Some (m, w1)"
      by (auto simp: follow_edge_on_label_eq)
    then show ?thesis by (simp add: follow_while_iff)
  qed
  then show ?thesis
    by (simp add: match_dict_def find_node_def find_node_loop_eq
          find_node_edges_label_outgoing_def find_node_edges_label_incoming_def
          node_def edge_def)
qed

theorem queries_leave_world_unchanged_witness:
  "follow_edge_on_label w_chain 0 ''WITHIN'' = Some (Some 2, w_chain)
   \<and> snd (match_dict w_chain 1 2) = w_chain \<and> snd (find_node w_chain 1) = w_chain
   \<and> snd (find_node_edges_label_outgoing w_chain 0 ''WITHIN'') = w_chain
   \<and> snd (find_node_edges_label_incoming w_chain 0 ''WITHIN'') = w_chain
   \<and> snd (node w_chain ''A'') = w_chain \<and> snd (edge w_chain ''A'') = w_chain"
  using queries_leave_world_unchanged[of w_chain 1 2 1 0 "''WITHIN''" "''A''" 0] follow_chain
  by simp

text \<open>
  C10: two \<open>add_edge\<close> calls without the \<open>properties\<close> argument, with any create
  operations between and after them, give two different edges whose \<open>properties\<close> are
  one and the same dictionary object, the function's default; a pair stored through
  either edge's \<open>properties\<close> is read back through the other's.
\<close>

theorem default_properties_shared:
  assumes "fst (add_edge w t1 l1 h1 None ku1 g1) = Inr (Some e1)"
      and "w2 = exec_calls (snd (add_edge w t1 l1 h1 None ku1 g1)) cs"
      and "fst (add_edge w2 t2 l2 h2 None ku2 g2) = Inr (Some e2)"
      and "w4 = exec_calls (snd (add_edge w2 t2 l2 h2 None ku2 g2)) cs2"
  shows "e1 \<noteq> e2
     \<and> edge_properties (edge_objs w4 e1) = add_edge_default_properties
     \<and> edge_properties (edge_objs w4 e2) = edge_properties (edge_objs w4 e1)
     \<and> dict_get (dicts (setitem_properties w4 (edge_properties (edge_objs w4 e1)) k v)
                   (edge_properties (edge_objs w4 e2))) k = Some v
     \<and> dict_get (dicts (setitem_properties w4 (edge_properties (edge_objs w4 e2)) k v)
                   (edge_properties (edge_objs w4 e1))) k = Some v"
proof -
  let ?wa = "snd (add_edge w t1 l1 h1 None ku1 g1)"
  let ?wb = "snd (add_edge w2 t2 l2 h2 None ku2 g2)"
  from add_edge_Some[OF assms(1)] have a: "e1 < next_edge ?wa"
    "edge_properties (edge_objs ?wa e1) = add_edge_default_properties" by simp_all
  from add_edge_Some[OF assms(3)] have b: "e2 = next_edge w2" "e2 < next_edge ?wb"
    "edge_properties (edge_objs ?wb e2) = add_edge_default_properties" by simp_all
  from exec_calls_edge_objs[OF a(1), of cs] have c: "edge_objs w2 e1 = edge_objs ?wa e1"
    "e1 < next_edge w2" by (simp_all add: assms(2))
  from add_edge_edge_objs[OF c(2), of t2 l2 h2 None ku2 g2]
  have d: "edge_objs ?wb e1 = edge_objs w2 e1" "e1 < next_edge ?wb" by simp_all
  from exec_calls_edge_objs[OF d(2), of cs2] have e: "edge_objs w4 e1 = edge_objs ?wb e1"
    by (simp add: assms(4))
  from exec_calls_edge_objs[OF b(2), of cs2] have f: "edge_objs w4 e2 = edge_objs ?wb e2"
    by (simp add: assms(4))
  have 1: "e1 \<noteq> e2" using c(2) b(1) by simp
  have 2: "edge_properties (edge_objs w4 e1) = add_edge_default_properties"
    by (simp add: e d c a)
  have 3: "edge_properties (edge_objs w4 e2) = add_edge_default_properties"
    by (simp add: f b(3))
  show ?thesis
    by (simp add: 1 2 3 setitem_properties_def dict_get_setitem)
qed

theorem default_properties_shared_witness:
  "(let wa = snd (add_edge w_two 0 ''L'' 1 None None ''e1'');
        w2 = exec_calls wa [Add_node 3 None ''c''];
        w4 = exec_calls (snd (add_edge w2 1 ''M'' 0 None None ''e2'')) []
    in fst (add_edge w_two 0 ''L'' 1 None None ''e1'') = Inr (Some 0)
     \<and> fst (add_edge w2 1 ''M'' 0 None None ''e2'') = Inr (Some 1)
     \<and> edge_properties (edge_objs w4 1) = edge_properties (edge_objs w4 0)
     \<and> dict_get (dicts w4 (edge_properties (edge_objs w4 1))) ''k'' = None
     \<and> dict_get (dicts (setitem_properties w4 (edge_properties (edge_objs w4 0)) ''k'' (PInt 1))
                   (edge_properties (edge_objs w4 1))) ''k'' = Some (PInt 1))"
proof -
  let ?wa = "snd (add_edge w_two 0 ''L'' 1 None None ''e1'')"
  let ?w2 = "exec_calls ?wa [Add_node 3 None ''c'']"
  let ?w4 = "exec_calls (snd (add_edge ?w2 1 ''M'' 0 None None ''e2'')) []"
  have a: "fst (add_edge w_two 0 ''L'' 1 None None ''e1'') = Inr (Some 0)"
    by (simp add: w_two_def op_defs Let_def)
  have b: "fst (add_edge ?w2 1 ''M'' 0 None None ''e2'') = Inr (Some 1)"
    by (simp add: w_two_def op_defs Let_def)
  have c: "dict_get (dicts ?w4 (edge_properties (edge_objs ?w4 1))) ''k'' = None"
    by (simp add: w_two_def op_defs Let_def)
  note t = default_properties_shared[OF a refl b refl, of "[]" "''k''" "PInt 1"]
  from t have t2: "edge_properties (edge_objs ?w4 1) = edge_properties (edge_objs ?w4 0)"
    by (elim conjE)
  from t have t4: "dict_get (dicts (setitem_properties ?w4 (edge_properties (edge_objs ?w4 0))
       ''k'' (PInt 1)) (edge_properties (edge_objs ?w4 1))) ''k'' = Some (PInt 1)"
    by (elim conjE)
  show ?thesis unfolding Let_def using a b c t2 t4 by (intro conjI)
qed

end
